theory Spec2Isabelle
  imports Main
begin

section \<open>Handles, errors and panics\<close>

text \<open>
  A connection handle is a Go pointer \<^verbatim>\<open>*sql.DB\<close>: either \<^verbatim>\<open>nil\<close> or the address of a
  live \<^verbatim>\<open>sql.DB\<close>. The pools never look inside a handle; they store it, compare it
  (as a map key) and call \<^verbatim>\<open>Close\<close> on it.
\<close>

datatype ptr = Null | DB nat

text \<open>A Go \<^verbatim>\<open>error\<close> value; the \<^verbatim>\<open>nil\<close> error is \<open>None\<close> of \<open>go_error option\<close>.\<close>

type_synonym go_error = string

text \<open>
  The two run-time panics the pool code can raise: a method of \<^verbatim>\<open>sql.DB\<close> called through
  a nil pointer, and a slice indexed outside \<^verbatim>\<open>0 .. len-1\<close>. A panic unwinds the call, but
  every assignment made before it stays (the mutex is released by the deferred
  \<^verbatim>\<open>Unlock\<close>), so an operation yields its outcome together with the pool as it leaves it.
\<close>

datatype panic = NilDereference | IndexOutOfRange

datatype 'a outcome = Returned 'a | Panicked panic

text \<open>
  \<^verbatim>\<open>db.Close()\<close> of \<^verbatim>\<open>database/sql\<close> starts with \<^verbatim>\<open>db.mu.Lock()\<close>, so it panics on a nil
  receiver. On a live handle it closes the handle; the pools drop the error it returns.
\<close>

definition DB_Close :: "ptr \<Rightarrow> panic option" where
  "DB_Close db = (case db of Null \<Rightarrow> Some NilDereference | DB a \<Rightarrow> None)"

text \<open>
  Go's \<^verbatim>\<open>int\<close> on a 64-bit target: the result of \<^verbatim>\<open>+\<close> and \<^verbatim>\<open>-\<close> wraps around in two's
  complement.
\<close>

definition go_int :: "int \<Rightarrow> int" where
  "go_int x = signed_take_bit (63::nat) x"

section \<open>SysConnectPool: the delegating policy\<close>

record SysConnectPool =
  sys_db :: ptr
  sys_maxIdleConns :: int

text \<open>\<^verbatim>\<open>NewSysConnectPool\<close> returns \<^verbatim>\<open>&SysConnectPool{}\<close>: both fields hold their zero values.\<close>

definition NewSysConnectPool :: SysConnectPool where
  "NewSysConnectPool = \<lparr>sys_db = Null, sys_maxIdleConns = 0\<rparr>"

text \<open>
  \<^verbatim>\<open>Init\<close> calls \<^verbatim>\<open>engine.OpenDB()\<close>; its result \<^verbatim>\<open>(db, err)\<close> is the parameter \<open>opened\<close>.
\<close>

definition Sys_Init :: "SysConnectPool \<Rightarrow> ptr \<times> go_error option \<Rightarrow> go_error option \<times> SysConnectPool" where
  "Sys_Init s opened =
     (case snd opened of
        Some e \<Rightarrow> (Some e, s)
      | None \<Rightarrow> (None, s\<lparr>sys_db := fst opened, sys_maxIdleConns := 2\<rparr>))"

definition Sys_RetrieveDB :: "SysConnectPool \<Rightarrow> ptr \<times> go_error option" where
  "Sys_RetrieveDB p = (sys_db p, None)"

definition Sys_ReleaseDB :: "SysConnectPool \<Rightarrow> ptr \<Rightarrow> SysConnectPool" where
  "Sys_ReleaseDB p db = p"

text \<open>\<^verbatim>\<open>Close\<close> returns whatever \<^verbatim>\<open>p.db.Close()\<close> returns (the parameter \<open>close_err\<close>).\<close>

definition Sys_Close :: "SysConnectPool \<Rightarrow> go_error option \<Rightarrow> go_error option outcome \<times> SysConnectPool" where
  "Sys_Close p close_err =
     (case DB_Close (sys_db p) of
        Some pk \<Rightarrow> (Panicked pk, p)
      | None \<Rightarrow> (Returned close_err, p))"

text \<open>
  \<^verbatim>\<open>SetMaxIdleConns\<close> first forwards the value to \<^verbatim>\<open>p.db.SetMaxIdleConns\<close> (which locks
  \<^verbatim>\<open>db.mu\<close>, hence panics on a nil handle) and then stores it.
\<close>

definition Sys_SetMaxIdleConns :: "SysConnectPool \<Rightarrow> int \<Rightarrow> unit outcome \<times> SysConnectPool" where
  "Sys_SetMaxIdleConns p conns =
     (case sys_db p of
        Null \<Rightarrow> (Panicked NilDereference, p)
      | DB a \<Rightarrow> (Returned (), p\<lparr>sys_maxIdleConns := conns\<rparr>))"

definition Sys_MaxIdleConns :: "SysConnectPool \<Rightarrow> int" where
  "Sys_MaxIdleConns p = sys_maxIdleConns p"

text \<open>The calls a client can make on an initialised pool, and the pool after a sequence of them.\<close>

datatype sys_op = SysRetrieve | SysRelease ptr | SysClose "go_error option" | SysSetMaxIdle int

fun sys_exec :: "SysConnectPool \<Rightarrow> sys_op \<Rightarrow> SysConnectPool" where
  "sys_exec p SysRetrieve = p"
| "sys_exec p (SysRelease db) = Sys_ReleaseDB p db"
| "sys_exec p (SysClose close_err) = snd (Sys_Close p close_err)"
| "sys_exec p (SysSetMaxIdle n) = snd (Sys_SetMaxIdleConns p n)"

definition sys_run :: "SysConnectPool \<Rightarrow> sys_op list \<Rightarrow> SysConnectPool" where
  "sys_run p ops = foldl sys_exec p ops"

fun is_SysSetMaxIdle :: "sys_op \<Rightarrow> bool" where
  "is_SysSetMaxIdle (SysSetMaxIdle n) = True"
| "is_SysSetMaxIdle other = False"

section \<open>SimpleConnectPool: the bounded stack policy\<close>

text \<open>
  The struct, without its mutex: every method holds the mutex from entry to exit, so each
  call is one atomic step on the remaining fields. \<open>usingConnects\<close> maps a handle to the
  time of its checkout.
\<close>

record SimpleConnectPool =
  releasedConnects :: "ptr list"
  cur :: int
  usingConnects :: "ptr \<rightharpoonup> nat"
  maxWaitTimeOut :: int
  maxIdleConns :: int

definition NewSimpleConnectPool :: SimpleConnectPool where
  "NewSimpleConnectPool =
     \<lparr>releasedConnects = replicate 10 Null,
      cur = - 1,
      usingConnects = Map.empty,
      maxWaitTimeOut = 14400,
      maxIdleConns = 10\<rparr>"

definition Simple_Init :: "SimpleConnectPool \<Rightarrow> go_error option \<times> SimpleConnectPool" where
  "Simple_Init s = (None, s)"

text \<open>
  \<^verbatim>\<open>RetrieveDB\<close>. \<open>opened\<close> is what \<^verbatim>\<open>engine.OpenDB()\<close> returns if it is called, \<open>now\<close> is
  \<^verbatim>\<open>time.Now()\<close>. With \<^verbatim>\<open>p.cur >= 0\<close> the first statement indexes the slice, which panics
  before anything is assigned when \<^verbatim>\<open>p.cur\<close> is not below its length.
\<close>

definition Simple_RetrieveDB ::
  "SimpleConnectPool \<Rightarrow> ptr \<times> go_error option \<Rightarrow> nat \<Rightarrow> (ptr \<times> go_error option) outcome \<times> SimpleConnectPool" where
  "Simple_RetrieveDB p opened now =
     (if cur p < 0 then
        (case snd opened of
           Some e \<Rightarrow> (Returned (Null, Some e), p)
         | None \<Rightarrow>
             (Returned (fst opened, None),
              p\<lparr>usingConnects := (usingConnects p)(fst opened \<mapsto> now)\<rparr>))
      else if int (length (releasedConnects p)) \<le> cur p then (Panicked IndexOutOfRange, p)
      else
        (let db = releasedConnects p ! nat (cur p) in
         (Returned (db, None),
          p\<lparr>usingConnects := (usingConnects p)(db \<mapsto> now),
            releasedConnects := (releasedConnects p)[nat (cur p) := Null],
            cur := go_int (cur p - 1)\<rparr>)))"

text \<open>
  \<^verbatim>\<open>ReleaseDB\<close>. The third component lists the handles closed by the call. In the
  retaining branch \<^verbatim>\<open>p.cur\<close> is incremented before the slice is indexed, so an index
  panic leaves the incremented cursor behind; a panic in either branch skips the
  \<^verbatim>\<open>delete\<close>. \<^verbatim>\<open>delete\<close> of a key that is absent does nothing.
\<close>

definition Simple_ReleaseDB ::
  "SimpleConnectPool \<Rightarrow> ptr \<Rightarrow> unit outcome \<times> SimpleConnectPool \<times> ptr list" where
  "Simple_ReleaseDB p db =
     (if go_int (maxIdleConns p - 1) \<le> cur p then
        (case DB_Close db of
           Some pk \<Rightarrow> (Panicked pk, p, [])
         | None \<Rightarrow> (Returned (), p\<lparr>usingConnects := (usingConnects p)(db := None)\<rparr>, [db]))
      else
        (let c = go_int (cur p + 1) in
         if 0 \<le> c \<and> c < int (length (releasedConnects p)) then
           (Returned (),
            p\<lparr>cur := c,
              releasedConnects := (releasedConnects p)[nat c := db],
              usingConnects := (usingConnects p)(db := None)\<rparr>,
            [])
         else (Panicked IndexOutOfRange, p\<lparr>cur := c\<rparr>, [])))"

text \<open>
  The loop of \<^verbatim>\<open>Close\<close> over the slice: while it is not empty, call \<^verbatim>\<open>Close\<close> on its first
  element and drop that element. The result is the panic that stopped the loop (if any),
  the slice left in \<^verbatim>\<open>p.releasedConnects\<close>, and the handles closed, in order.
\<close>

fun Close_loop :: "ptr list \<Rightarrow> panic option \<times> ptr list \<times> ptr list" where
  "Close_loop [] = (None, [], [])"
| "Close_loop (x # rest) =
     (case DB_Close x of
        Some pk \<Rightarrow> (Some pk, x # rest, [])
      | None \<Rightarrow> (case Close_loop rest of (r, left, closed) \<Rightarrow> (r, left, x # closed)))"

definition Simple_Close ::
  "SimpleConnectPool \<Rightarrow> go_error option outcome \<times> SimpleConnectPool \<times> ptr list" where
  "Simple_Close p =
     (case Close_loop (releasedConnects p) of
        (Some pk, left, closed) \<Rightarrow> (Panicked pk, p\<lparr>releasedConnects := left\<rparr>, closed)
      | (None, left, closed) \<Rightarrow> (Returned None, p\<lparr>releasedConnects := left\<rparr>, closed))"

definition Simple_SetMaxIdleConns :: "SimpleConnectPool \<Rightarrow> int \<Rightarrow> SimpleConnectPool" where
  "Simple_SetMaxIdleConns p conns = p\<lparr>maxIdleConns := conns\<rparr>"

definition Simple_MaxIdleConns :: "SimpleConnectPool \<Rightarrow> int" where
  "Simple_MaxIdleConns p = maxIdleConns p"

text \<open>
  The idle stack is the part of the slice at the cursor positions \<open>0 .. cur\<close>; the code's
  own trace statements print \<^verbatim>\<open>p.cur+1\<close> as the number of released connections.
\<close>

definition idle_handles :: "SimpleConnectPool \<Rightarrow> ptr list" where
  "idle_handles p = take (nat (cur p + 1)) (releasedConnects p)"

definition idle_count :: "SimpleConnectPool \<Rightarrow> int" where
  "idle_count p = cur p + 1"

section \<open>Sequences of calls on a SimpleConnectPool\<close>

text \<open>
  A client's calls: \<open>Acquire opened now\<close> is \<^verbatim>\<open>RetrieveDB\<close> (with the answer the factory
  gives if it is asked, and the clock), \<open>Release db\<close> is \<^verbatim>\<open>ReleaseDB\<close>, \<open>SetMaxIdle n\<close> is
  \<^verbatim>\<open>SetMaxIdleConns\<close>. \<open>exec\<close> is the pool a call leaves behind, whether the call returned
  or panicked; \<open>run\<close> is the pool after a sequence of calls.
\<close>

datatype pool_op = Acquire "ptr \<times> go_error option" nat | Release ptr | SetMaxIdle int

fun exec :: "SimpleConnectPool \<Rightarrow> pool_op \<Rightarrow> SimpleConnectPool" where
  "exec p (Acquire opened now) = snd (Simple_RetrieveDB p opened now)"
| "exec p (Release db) = fst (snd (Simple_ReleaseDB p db))"
| "exec p (SetMaxIdle n) = Simple_SetMaxIdleConns p n"

definition run :: "SimpleConnectPool \<Rightarrow> pool_op list \<Rightarrow> SimpleConnectPool" where
  "run p ops = foldl exec p ops"

text \<open>The handle a call of \<^verbatim>\<open>RetrieveDB\<close> hands to its caller, if it hands out one.\<close>

fun acquired :: "(ptr \<times> go_error option) outcome \<Rightarrow> ptr set" where
  "acquired (Returned (db, None)) = {db}"
| "acquired other = {}"

text \<open>
  A sequence of calls is well formed when every \<open>Release\<close> passes a handle that an earlier
  \<open>Acquire\<close> returned and that has not been passed to \<open>Release\<close> since. \<open>held\<close> is the set
  of handles out with the callers.
\<close>

fun well_formed :: "ptr set \<Rightarrow> SimpleConnectPool \<Rightarrow> pool_op list \<Rightarrow> bool" where
  "well_formed held p [] = True"
| "well_formed held p (Acquire opened now # ops) =
     well_formed (held \<union> acquired (fst (Simple_RetrieveDB p opened now)))
       (exec p (Acquire opened now)) ops"
| "well_formed held p (Release db # ops) =
     (db \<in> held \<and> well_formed (held - {db}) (exec p (Release db)) ops)"
| "well_formed held p (SetMaxIdle n # ops) = well_formed held (exec p (SetMaxIdle n)) ops"

text \<open>
  A sequence of calls respects the idle stack when no \<open>SetMaxIdle\<close> sets the cap below the
  number of handles that are idle at that moment.
\<close>

fun cap_respected :: "SimpleConnectPool \<Rightarrow> pool_op list \<Rightarrow> bool" where
  "cap_respected p [] = True"
| "cap_respected p (Acquire opened now # ops) = cap_respected (exec p (Acquire opened now)) ops"
| "cap_respected p (Release db # ops) = cap_respected (exec p (Release db)) ops"
| "cap_respected p (SetMaxIdle n # ops) =
     (idle_count p \<le> n \<and> cap_respected (exec p (SetMaxIdle n)) ops)"

text \<open>The invariants behind the two properties of reachable pools.\<close>

definition pool_inv :: "ptr set \<Rightarrow> SimpleConnectPool \<Rightarrow> bool" where
  "pool_inv held p \<longleftrightarrow>
     - 1 \<le> cur p \<and> cur p < 2 ^ 63
     \<and> distinct (idle_handles p)
     \<and> set (idle_handles p) \<inter> dom (usingConnects p) = {}
     \<and> held \<subseteq> dom (usingConnects p)"

definition cur_inv :: "SimpleConnectPool \<Rightarrow> bool" where
  "cur_inv p \<longleftrightarrow> - 1 \<le> cur p \<and> cur p < 2 ^ 63"

definition cap_inv :: "SimpleConnectPool \<Rightarrow> bool" where
  "cap_inv p \<longleftrightarrow> cur_inv p \<and> idle_count p \<le> maxIdleConns p"

text \<open>
  The pool keeps ten slots; \<open>slots_inv\<close> says that the cursor and the cap stay within them,
  and \<open>cap_within_slots\<close> that a call sets no cap beyond them (nor the least \<^verbatim>\<open>int\<close>,
  whose predecessor wraps around).
\<close>

definition slots_inv :: "SimpleConnectPool \<Rightarrow> bool" where
  "slots_inv p \<longleftrightarrow>
     - 1 \<le> cur p \<and> cur p \<le> 9 \<and> length (releasedConnects p) = 10
     \<and> - (2 ^ 63) < maxIdleConns p \<and> maxIdleConns p \<le> 10"

fun cap_within_slots :: "pool_op \<Rightarrow> bool" where
  "cap_within_slots (SetMaxIdle n) = (- (2 ^ 63) < n \<and> n \<le> 10)"
| "cap_within_slots other = True"

section \<open>Arithmetic and list facts\<close>

lemma go_int_id: "- (2 ^ 63) \<le> x \<Longrightarrow> x < 2 ^ 63 \<Longrightarrow> go_int x = x"
  by (simp add: go_int_def signed_take_bit_int_eq_self)

lemma go_int_less: "go_int x < 2 ^ 63"
  unfolding go_int_def by (rule signed_take_bit_int_less_exp)

lemma go_int_le_self: "- (2 ^ 63) \<le> x \<Longrightarrow> go_int x \<le> x"
  unfolding go_int_def by (simp add: signed_take_bit_int_less_eq_self_iff)

lemma take_Suc_update: "k < length xs \<Longrightarrow> take (Suc k) (xs[k := x]) = take k xs @ [x]"
  by (simp add: take_Suc_conv_app_nth)

text \<open>The equations that evaluate a sequence of calls on a concrete pool.\<close>

lemmas eval_pool = run_def NewSimpleConnectPool_def Simple_RetrieveDB_def Simple_ReleaseDB_def
  DB_Close_def Simple_SetMaxIdleConns_def go_int_id idle_handles_def idle_count_def
  Simple_MaxIdleConns_def Let_def numeral_eq_Suc

section \<open>Construction\<close>

text \<open>
  C7. A freshly constructed SimpleConnectPool has ten idle slots (all nil), the cursor at
  the empty sentinel -1, an empty in-use mapping, maxIdle 10 and the unused maximum idle
  duration 14400.
\<close>

theorem new_simple_pool_fields:
  "releasedConnects NewSimpleConnectPool = replicate 10 Null
   \<and> length (releasedConnects NewSimpleConnectPool) = 10
   \<and> cur NewSimpleConnectPool = - 1
   \<and> usingConnects NewSimpleConnectPool = Map.empty
   \<and> Simple_MaxIdleConns NewSimpleConnectPool = 10
   \<and> maxWaitTimeOut NewSimpleConnectPool = 14400
   \<and> idle_handles NewSimpleConnectPool = []"
  by (simp add: NewSimpleConnectPool_def Simple_MaxIdleConns_def idle_handles_def)

section \<open>Acquire when the factory fails\<close>

text \<open>
  C5. When the idle stack is empty (\<open>cur < 0\<close>) and \<^verbatim>\<open>engine.OpenDB\<close> fails with error \<open>e\<close>,
  RetrieveDB returns \<open>(nil, e)\<close> and the pool is exactly as before.
\<close>

theorem retrieve_open_failure:
  assumes "cur p < 0"
  shows "Simple_RetrieveDB p (d, Some e) now = (Returned (Null, Some e), p)"
  using assms by (simp add: Simple_RetrieveDB_def)

theorem retrieve_open_failure_witness:
  "cur NewSimpleConnectPool < 0
   \<and> Simple_RetrieveDB NewSimpleConnectPool (Null, Some ''refused'') 7
       = (Returned (Null, Some ''refused''), NewSimpleConnectPool)"
proof -
  have h: "cur NewSimpleConnectPool < 0"
    by (simp add: NewSimpleConnectPool_def)
  show ?thesis
    using h retrieve_open_failure [OF h, of Null "''refused''" 7] by simp
qed

section \<open>SysConnectPool after Init\<close>

lemma sys_exec_db: "sys_db (sys_exec p a) = sys_db p"
  by (cases a) (simp_all add: Sys_ReleaseDB_def Sys_Close_def Sys_SetMaxIdleConns_def
      split: option.splits ptr.splits)

lemma sys_run_db: "sys_db (sys_run p ops) = sys_db p"
  unfolding sys_run_def by (induction ops arbitrary: p) (simp_all add: sys_exec_db)

lemma sys_exec_maxIdle:
  "\<not> is_SysSetMaxIdle a \<Longrightarrow> sys_maxIdleConns (sys_exec p a) = sys_maxIdleConns p"
  by (cases a) (simp_all add: Sys_ReleaseDB_def Sys_Close_def split: option.splits)

lemma sys_run_maxIdle:
  "list_all (\<lambda>a. \<not> is_SysSetMaxIdle a) ops \<Longrightarrow>
   sys_maxIdleConns (sys_run p ops) = sys_maxIdleConns p"
  unfolding sys_run_def by (induction ops arbitrary: p) (simp_all add: sys_exec_maxIdle)

text \<open>
  C8. Once \<^verbatim>\<open>Init\<close> has succeeded (the factory returned \<open>fst opened\<close> with a nil error),
  \<^verbatim>\<open>RetrieveDB\<close> returns that handle and a nil error after any sequence of RetrieveDB,
  ReleaseDB, Close and SetMaxIdleConns calls.
\<close>

theorem sys_retrieve_after_init:
  assumes "Sys_Init s opened = (None, s')"
  shows "Sys_RetrieveDB (sys_run s' ops) = (fst opened, None)"
  using assms
  by (auto simp: Sys_Init_def Sys_RetrieveDB_def sys_run_db split: option.splits)

theorem sys_retrieve_after_init_witness:
  "Sys_Init NewSysConnectPool (DB 1, None) = (None, \<lparr>sys_db = DB 1, sys_maxIdleConns = 2\<rparr>)
   \<and> Sys_RetrieveDB (sys_run \<lparr>sys_db = DB 1, sys_maxIdleConns = 2\<rparr>
         [SysRetrieve, SysRelease (DB 1), SysRetrieve, SysRelease (DB 1), SysRelease (DB 1)])
       = (DB 1, None)"
proof -
  have h: "Sys_Init NewSysConnectPool (DB 1, None)
           = (None, \<lparr>sys_db = DB 1, sys_maxIdleConns = 2\<rparr>)"
    by (simp add: Sys_Init_def NewSysConnectPool_def)
  show ?thesis
    using h sys_retrieve_after_init [OF h] by simp
qed

text \<open>
  C9. After a successful \<^verbatim>\<open>Init\<close>, \<^verbatim>\<open>MaxIdleConns\<close> returns 2 after any sequence of calls
  none of which is \<^verbatim>\<open>SetMaxIdleConns\<close>.
\<close>

theorem sys_max_idle_after_init:
  assumes "Sys_Init s opened = (None, s')"
    and "list_all (\<lambda>a. \<not> is_SysSetMaxIdle a) ops"
  shows "Sys_MaxIdleConns (sys_run s' ops) = 2"
  using assms
  by (auto simp: Sys_Init_def Sys_MaxIdleConns_def sys_run_maxIdle split: option.splits)

theorem sys_max_idle_after_init_witness:
  "Sys_Init NewSysConnectPool (DB 1, None) = (None, \<lparr>sys_db = DB 1, sys_maxIdleConns = 2\<rparr>)
   \<and> list_all (\<lambda>a. \<not> is_SysSetMaxIdle a) [SysRetrieve, SysRelease (DB 1), SysClose None]
   \<and> Sys_MaxIdleConns (sys_run \<lparr>sys_db = DB 1, sys_maxIdleConns = 2\<rparr>
         [SysRetrieve, SysRelease (DB 1), SysClose None]) = 2"
proof -
  have h: "Sys_Init NewSysConnectPool (DB 1, None)
           = (None, \<lparr>sys_db = DB 1, sys_maxIdleConns = 2\<rparr>)"
    by (simp add: Sys_Init_def NewSysConnectPool_def)
  have l: "list_all (\<lambda>a. \<not> is_SysSetMaxIdle a) [SysRetrieve, SysRelease (DB 1), SysClose None]"
    by simp
  show ?thesis
    using h l sys_max_idle_after_init [OF h l] by simp
qed

section \<open>Idle stack and in-use mapping stay disjoint\<close>

lemma idle_handles_pop:
  assumes "0 \<le> cur p" "cur p < int (length (releasedConnects p))"
  shows "idle_handles p =
         take (nat (cur p)) (releasedConnects p) @ [releasedConnects p ! nat (cur p)]"
proof -
  have "nat (cur p + 1) = Suc (nat (cur p))" using assms by simp
  moreover have "nat (cur p) < length (releasedConnects p)" using assms by simp
  ultimately show ?thesis
    by (simp add: idle_handles_def take_Suc_conv_app_nth)
qed

lemma inv_retrieve:
  assumes "pool_inv held p"
  shows "pool_inv (held \<union> acquired (fst (Simple_RetrieveDB p opened now)))
           (snd (Simple_RetrieveDB p opened now))"
proof (cases "cur p < 0")
  case True
  with assms have c: "cur p = - 1" by (simp add: pool_inv_def)
  show ?thesis
  proof (cases "snd opened")
    case None
    with c assms show ?thesis
      by (auto simp: Simple_RetrieveDB_def pool_inv_def idle_handles_def)
  next
    case (Some e)
    with c assms show ?thesis
      by (simp add: Simple_RetrieveDB_def)
  qed
next
  case False
  then have nonneg: "0 \<le> cur p" by simp
  show ?thesis
  proof (cases "cur p < int (length (releasedConnects p))")
    case False
    with nonneg assms show ?thesis
      by (simp add: Simple_RetrieveDB_def)
  next
    case True
    let ?xs = "releasedConnects p"
    let ?n = "nat (cur p)"
    let ?db = "?xs ! ?n"
    let ?p' = "p\<lparr>usingConnects := (usingConnects p)(?db \<mapsto> now),
                  releasedConnects := ?xs[?n := Null], cur := go_int (cur p - 1)\<rparr>"
    have res: "Simple_RetrieveDB p opened now = (Returned (?db, None), ?p')"
      using nonneg True by (simp add: Simple_RetrieveDB_def Let_def)
    have range: "cur p < 2 ^ 63" using assms by (simp add: pool_inv_def)
    have cur': "go_int (cur p - 1) = cur p - 1"
      using nonneg range by (intro go_int_id) simp_all
    have idle: "idle_handles p = take ?n ?xs @ [?db]"
      using nonneg True by (rule idle_handles_pop)
    have idle': "idle_handles ?p' = take ?n ?xs"
      by (simp add: idle_handles_def cur')
    have d: "distinct (take ?n ?xs @ [?db])"
      and dj: "set (take ?n ?xs @ [?db]) \<inter> dom (usingConnects p) = {}"
      and h: "held \<subseteq> dom (usingConnects p)"
      using assms idle by (simp_all add: pool_inv_def)
    have "pool_inv (held \<union> {?db}) ?p'"
      unfolding pool_inv_def idle'
      using d dj h nonneg range cur' by auto
    then show ?thesis by (simp add: res)
  qed
qed

lemma inv_release:
  assumes "pool_inv held p" and "db \<in> held"
  shows "pool_inv (held - {db}) (fst (snd (Simple_ReleaseDB p db)))"
proof (cases "go_int (maxIdleConns p - 1) \<le> cur p")
  case True
  with assms show ?thesis
    by (cases db) (auto simp: Simple_ReleaseDB_def DB_Close_def pool_inv_def idle_handles_def)
next
  case False
  let ?xs = "releasedConnects p"
  let ?c = "cur p + 1"
  have lo: "- 1 \<le> cur p" using assms by (simp add: pool_inv_def)
  have hi: "cur p + 1 < 2 ^ 63"
    using False go_int_less [of "maxIdleConns p - 1"] by linarith
  have c: "go_int (cur p + 1) = ?c"
    using lo hi by (intro go_int_id) simp_all
  have notin: "db \<notin> set (idle_handles p)"
    using assms by (auto simp: pool_inv_def)
  show ?thesis
  proof (cases "?c < int (length ?xs)")
    case True
    let ?p' = "p\<lparr>cur := ?c, releasedConnects := ?xs[nat ?c := db],
                  usingConnects := (usingConnects p)(db := None)\<rparr>"
    have res: "fst (snd (Simple_ReleaseDB p db)) = ?p'"
      using False True lo by (simp add: Simple_ReleaseDB_def c Let_def)
    have n: "nat (?c + 1) = Suc (nat ?c)" using lo by simp
    have len: "nat ?c < length ?xs" using True lo by simp
    have sel: "cur ?p' = ?c" "releasedConnects ?p' = ?xs[nat ?c := db]"
      by simp_all
    have "idle_handles ?p' = take (nat (?c + 1)) (?xs[nat ?c := db])"
      unfolding idle_handles_def sel ..
    also have "\<dots> = take (Suc (nat ?c)) (?xs[nat ?c := db])"
      by (simp only: n)
    also have "\<dots> = take (nat ?c) ?xs @ [db]"
      using len by (rule take_Suc_update)
    finally have idle': "idle_handles ?p' = idle_handles p @ [db]"
      by (simp add: idle_handles_def)
    have "pool_inv (held - {db}) ?p'"
      unfolding pool_inv_def idle'
      using assms notin lo hi by (auto simp: pool_inv_def)
    then show ?thesis by (simp add: res)
  next
    case False
    let ?p' = "p\<lparr>cur := ?c\<rparr>"
    have res: "fst (snd (Simple_ReleaseDB p db)) = ?p'"
      using \<open>\<not> go_int (maxIdleConns p - 1) \<le> cur p\<close> False
      by (simp add: Simple_ReleaseDB_def c Let_def)
    have idle': "idle_handles ?p' = idle_handles p"
      using False lo by (simp add: idle_handles_def)
    have "pool_inv (held - {db}) ?p'"
      unfolding pool_inv_def idle'
      using assms lo hi by (auto simp: pool_inv_def)
    then show ?thesis by (simp add: res)
  qed
qed

lemma inv_set_max: "pool_inv held p \<Longrightarrow> pool_inv held (Simple_SetMaxIdleConns p n)"
  by (simp add: pool_inv_def Simple_SetMaxIdleConns_def idle_handles_def)

lemma inv_run:
  "pool_inv held p \<Longrightarrow> well_formed held p ops \<Longrightarrow> \<exists>held'. pool_inv held' (run p ops)"
proof (induction ops arbitrary: held p)
  case Nil
  then show ?case by (auto simp: run_def)
next
  case (Cons a ops)
  show ?case
  proof (cases a)
    case (Acquire opened now)
    with Cons.prems Cons.IH [OF inv_retrieve [OF Cons.prems(1)], of opened now]
    show ?thesis by (simp add: run_def)
  next
    case (Release db)
    with Cons.prems Cons.IH [OF inv_release [OF Cons.prems(1)], of db]
    show ?thesis by (simp add: run_def)
  next
    case (SetMaxIdle n)
    with Cons.prems Cons.IH [OF inv_set_max [OF Cons.prems(1)], of n]
    show ?thesis by (simp add: run_def)
  qed
qed

lemma inv_new: "pool_inv {} NewSimpleConnectPool"
  by (simp add: pool_inv_def NewSimpleConnectPool_def idle_handles_def)

text \<open>
  C3. In every pool reached from the freshly constructed one by a well-formed sequence of
  Acquire, Release and SetMaxIdle calls, no handle of the idle stack is a key of the in-use
  mapping.
\<close>

theorem idle_in_use_disjoint:
  assumes "well_formed {} NewSimpleConnectPool ops"
  shows "set (idle_handles (run NewSimpleConnectPool ops))
         \<inter> dom (usingConnects (run NewSimpleConnectPool ops)) = {}"
  using inv_run [OF inv_new assms] by (auto simp: pool_inv_def)

theorem idle_in_use_disjoint_witness:
  "well_formed {} NewSimpleConnectPool
     [Acquire (DB 11, None) 101, Acquire (DB 12, None) 102, Release (DB 11),
      Acquire (DB 13, None) 103, Release (DB 12)]
   \<and> set (idle_handles (run NewSimpleConnectPool
        [Acquire (DB 11, None) 101, Acquire (DB 12, None) 102, Release (DB 11),
         Acquire (DB 13, None) 103, Release (DB 12)]))
     \<inter> dom (usingConnects (run NewSimpleConnectPool
        [Acquire (DB 11, None) 101, Acquire (DB 12, None) 102, Release (DB 11),
         Acquire (DB 13, None) 103, Release (DB 12)])) = {}"
proof -
  have h: "well_formed {} NewSimpleConnectPool
     [Acquire (DB 11, None) 101, Acquire (DB 12, None) 102, Release (DB 11),
      Acquire (DB 13, None) 103, Release (DB 12)]"
    by (simp add: eval_pool)
  show ?thesis
    using h idle_in_use_disjoint [OF h] by simp
qed

section \<open>Close\<close>

lemma Close_loop_eq:
  "Close_loop xs =
     (if Null \<in> set xs then Some NilDereference else None,
      dropWhile (\<lambda>x. x \<noteq> Null) xs, takeWhile (\<lambda>x. x \<noteq> Null) xs)"
  by (induction xs) (auto simp: DB_Close_def split: ptr.splits)

lemma Simple_Close_eq:
  "Simple_Close p =
     (if Null \<in> set (releasedConnects p) then Panicked NilDereference else Returned None,
      p\<lparr>releasedConnects := dropWhile (\<lambda>x. x \<noteq> Null) (releasedConnects p)\<rparr>,
      takeWhile (\<lambda>x. x \<noteq> Null) (releasedConnects p))"
  by (simp add: Simple_Close_def Close_loop_eq)


text \<open>
  C1, evaluated on the code. The pool has the idle stack \<open>[DB 11, DB 12, DB 13]\<close> and an empty
  in-use mapping. \<^verbatim>\<open>Close\<close> closes the three handles, then calls \<^verbatim>\<open>Close\<close> on the nil pointer of
  the fourth slot and panics; the cursor still reports three idle entries, over a slice of
  seven nil slots. On the freshly constructed pool \<^verbatim>\<open>Close\<close> panics at the first slot.
\<close>

theorem close_three_idle_panics:
  "idle_handles (run NewSimpleConnectPool
       [Acquire (DB 11, None) 101, Acquire (DB 12, None) 102, Acquire (DB 13, None) 103,
        Release (DB 11), Release (DB 12), Release (DB 13)]) = [DB 11, DB 12, DB 13]
   \<and> dom (usingConnects (run NewSimpleConnectPool
       [Acquire (DB 11, None) 101, Acquire (DB 12, None) 102, Acquire (DB 13, None) 103,
        Release (DB 11), Release (DB 12), Release (DB 13)])) = {}
   \<and> fst (Simple_Close (run NewSimpleConnectPool
       [Acquire (DB 11, None) 101, Acquire (DB 12, None) 102, Acquire (DB 13, None) 103,
        Release (DB 11), Release (DB 12), Release (DB 13)])) = Panicked NilDereference
   \<and> snd (snd (Simple_Close (run NewSimpleConnectPool
       [Acquire (DB 11, None) 101, Acquire (DB 12, None) 102, Acquire (DB 13, None) 103,
        Release (DB 11), Release (DB 12), Release (DB 13)]))) = [DB 11, DB 12, DB 13]
   \<and> releasedConnects (fst (snd (Simple_Close (run NewSimpleConnectPool
       [Acquire (DB 11, None) 101, Acquire (DB 12, None) 102, Acquire (DB 13, None) 103,
        Release (DB 11), Release (DB 12), Release (DB 13)])))) = replicate 7 Null
   \<and> idle_handles (fst (snd (Simple_Close (run NewSimpleConnectPool
       [Acquire (DB 11, None) 101, Acquire (DB 12, None) 102, Acquire (DB 13, None) 103,
        Release (DB 11), Release (DB 12), Release (DB 13)])))) = [Null, Null, Null]
   \<and> Simple_Close NewSimpleConnectPool = (Panicked NilDereference, NewSimpleConnectPool, [])"
  by (simp add: Simple_Close_eq eval_pool)




section \<open>LIFO reuse\<close>

lemma release_retained:
  assumes "Simple_ReleaseDB p db = (Returned (), p', [])"
  shows "0 \<le> cur p' \<and> cur p' < int (length (releasedConnects p))
         \<and> cur p' = go_int (cur p + 1)
         \<and> releasedConnects p' = (releasedConnects p)[nat (cur p') := db]"
  using assms
  by (auto simp: Simple_ReleaseDB_def Let_def DB_Close_def split: if_splits ptr.splits)

lemma retrieve_pop:
  assumes "0 \<le> cur p" "cur p < int (length (releasedConnects p))"
  shows "Simple_RetrieveDB p opened now =
         (Returned (releasedConnects p ! nat (cur p), None),
          p\<lparr>usingConnects := (usingConnects p)(releasedConnects p ! nat (cur p) \<mapsto> now),
            releasedConnects := (releasedConnects p)[nat (cur p) := Null],
            cur := go_int (cur p - 1)\<rparr>)"
  using assms by (simp add: Simple_RetrieveDB_def Let_def)

lemma release_release_retrieve:
  assumes "Simple_ReleaseDB p A = (Returned (), p1, [])"
    and "Simple_ReleaseDB p1 B = (Returned (), p2, [])"
  shows "fst (Simple_RetrieveDB p2 opened now) = Returned (B, None)
         \<and> fst (Simple_RetrieveDB (snd (Simple_RetrieveDB p2 opened now)) opened' now')
             = Returned (A, None)"
proof -
  let ?c1 = "cur p1" and ?c2 = "cur p2"
  from release_retained [OF assms(1)]
  have c1: "0 \<le> ?c1" "?c1 < int (length (releasedConnects p))"
    and xs1: "releasedConnects p1 = (releasedConnects p)[nat ?c1 := A]"
    by simp_all
  from release_retained [OF assms(2)]
  have c2: "0 \<le> ?c2" "?c2 < int (length (releasedConnects p1))"
    and c2eq: "?c2 = go_int (?c1 + 1)"
    and xs2: "releasedConnects p2 = (releasedConnects p1)[nat ?c2 := B]"
    by simp_all
  have c1range: "?c1 < 2 ^ 63"
    using release_retained [OF assms(1)] go_int_less [of "cur p + 1"] by simp
  have "?c1 + 1 < 2 ^ 63"
  proof (rule ccontr)
    assume "\<not> ?c1 + 1 < 2 ^ 63"
    with c1range have "?c1 + 1 = 2 ^ 63" by simp
    then have "go_int (?c1 + 1) = - (2 ^ 63)"
      by (simp add: go_int_def signed_take_bit_eq_take_bit_shift take_bit_eq_mod)
    with c2eq c2(1) show False by simp
  qed
  with c1(1) have step: "?c2 = ?c1 + 1"
    unfolding c2eq by (intro go_int_id) simp_all
  have len: "length (releasedConnects p2) = length (releasedConnects p)"
    by (simp add: xs1 xs2)
  have in2: "?c2 < int (length (releasedConnects p2))"
    using c2(2) by (simp add: xs2)
  have first: "Simple_RetrieveDB p2 opened now =
         (Returned (B, None),
          p2\<lparr>usingConnects := (usingConnects p2)(B \<mapsto> now),
            releasedConnects := (releasedConnects p2)[nat ?c2 := Null],
            cur := go_int (?c2 - 1)\<rparr>)"
    using retrieve_pop [OF c2(1) in2, of opened now] c2 by (simp add: xs2)
  have prev: "go_int (?c2 - 1) = ?c1"
    using c1(1) c1range by (simp add: step go_int_id)
  let ?p3 = "snd (Simple_RetrieveDB p2 opened now)"
  have p3: "cur ?p3 = ?c1"
    "releasedConnects ?p3 = (releasedConnects p2)[nat ?c2 := Null]"
    by (simp_all add: first prev)
  have neq: "nat ?c2 \<noteq> nat ?c1" using step c1(1) by simp
  have slot: "releasedConnects ?p3 ! nat ?c1 = A"
    using c1 neq by (simp add: p3 xs2 xs1)
  have in3: "cur ?p3 < int (length (releasedConnects ?p3))"
    using c1(2) by (simp add: p3 len)
  have nonneg3: "0 \<le> cur ?p3" using c1(1) by (simp add: p3)
  have second: "fst (Simple_RetrieveDB ?p3 opened' now') = Returned (A, None)"
    using retrieve_pop [OF nonneg3 in3, of opened' now'] slot by (simp add: p3)
  show ?thesis using first second by simp
qed

lemma retrieve_returns_top:
  assumes "0 \<le> cur q" and "length (idle_handles q) = nat (cur q + 1)"
  shows "fst (Simple_RetrieveDB q opened now) = Returned (last (idle_handles q), None)"
proof -
  have in_range: "cur q < int (length (releasedConnects q))"
    using assms by (simp add: idle_handles_def min_def split: if_splits)
  have "idle_handles q =
        take (nat (cur q)) (releasedConnects q) @ [releasedConnects q ! nat (cur q)]"
    using assms(1) in_range by (rule idle_handles_pop)
  then have "last (idle_handles q) = releasedConnects q ! nat (cur q)"
    by simp
  then show ?thesis
    using retrieve_pop [OF assms(1) in_range, of opened now] by simp
qed

text \<open>
  C4. Idle handles are reused last in, first out. When two calls of \<^verbatim>\<open>ReleaseDB\<close> in a row
  retain their handles, first \<open>A\<close> and then \<open>B\<close>, the next \<^verbatim>\<open>RetrieveDB\<close> returns \<open>B\<close> and the one
  after it returns \<open>A\<close>; and a pool whose idle stack is \<open>[A, B]\<close> (cursor at 1) returns \<open>B\<close>. The
  factory is not asked in either case.
\<close>

theorem lifo_reuse:
  "(Simple_ReleaseDB p A = (Returned (), p1, []) \<and> Simple_ReleaseDB p1 B = (Returned (), p2, [])
      \<longrightarrow> fst (Simple_RetrieveDB p2 opened now) = Returned (B, None)
          \<and> fst (Simple_RetrieveDB (snd (Simple_RetrieveDB p2 opened now)) opened' now')
              = Returned (A, None))
   \<and> (cur q = 1 \<and> idle_handles q = [A, B]
      \<longrightarrow> fst (Simple_RetrieveDB q opened now) = Returned (B, None))"
proof (intro conjI impI)
  assume "cur q = 1 \<and> idle_handles q = [A, B]"
  then have "0 \<le> cur q" "length (idle_handles q) = nat (cur q + 1)" "last (idle_handles q) = B"
    by simp_all
  then show "fst (Simple_RetrieveDB q opened now) = Returned (B, None)"
    using retrieve_returns_top [of q opened now] by simp
next
  assume "Simple_ReleaseDB p A = (Returned (), p1, []) \<and> Simple_ReleaseDB p1 B = (Returned (), p2, [])"
  then have r: "Simple_ReleaseDB p A = (Returned (), p1, [])"
    "Simple_ReleaseDB p1 B = (Returned (), p2, [])"
    by simp_all
  from release_release_retrieve [OF r, of opened now opened' now']
  show "fst (Simple_RetrieveDB p2 opened now) = Returned (B, None)"
    and "fst (Simple_RetrieveDB (snd (Simple_RetrieveDB p2 opened now)) opened' now')
              = Returned (A, None)"
    by simp_all
qed

theorem lifo_reuse_witness:
  "Simple_ReleaseDB
      (run NewSimpleConnectPool [Acquire (DB 11, None) 101, Acquire (DB 12, None) 102]) (DB 11)
     = (Returned (),
        run NewSimpleConnectPool
          [Acquire (DB 11, None) 101, Acquire (DB 12, None) 102, Release (DB 11)], [])
   \<and> Simple_ReleaseDB
      (run NewSimpleConnectPool
         [Acquire (DB 11, None) 101, Acquire (DB 12, None) 102, Release (DB 11)]) (DB 12)
     = (Returned (),
        run NewSimpleConnectPool
          [Acquire (DB 11, None) 101, Acquire (DB 12, None) 102, Release (DB 11),
           Release (DB 12)], [])
   \<and> cur (run NewSimpleConnectPool
        [Acquire (DB 11, None) 101, Acquire (DB 12, None) 102, Release (DB 11),
         Release (DB 12)]) = 1
   \<and> idle_handles (run NewSimpleConnectPool
        [Acquire (DB 11, None) 101, Acquire (DB 12, None) 102, Release (DB 11),
         Release (DB 12)]) = [DB 11, DB 12]
   \<and> fst (Simple_RetrieveDB (run NewSimpleConnectPool
        [Acquire (DB 11, None) 101, Acquire (DB 12, None) 102, Release (DB 11),
         Release (DB 12)]) (DB 13, None) 103)
      = Returned (DB 12, None)"
proof -
  let ?p = "run NewSimpleConnectPool [Acquire (DB 11, None) 101, Acquire (DB 12, None) 102]"
  let ?p1 = "run NewSimpleConnectPool
               [Acquire (DB 11, None) 101, Acquire (DB 12, None) 102, Release (DB 11)]"
  let ?p2 = "run NewSimpleConnectPool
               [Acquire (DB 11, None) 101, Acquire (DB 12, None) 102, Release (DB 11),
                Release (DB 12)]"
  have h1: "Simple_ReleaseDB ?p (DB 11) = (Returned (), ?p1, [])"
    by (simp add: eval_pool)
  have h2: "Simple_ReleaseDB ?p1 (DB 12) = (Returned (), ?p2, [])"
    by (simp add: eval_pool)
  have c: "cur ?p2 = 1"
    by (simp add: eval_pool)
  have i: "idle_handles ?p2 = [DB 11, DB 12]"
    by (simp add: eval_pool)
  from lifo_reuse [of ?p "DB 11" ?p1 "DB 12" ?p2 "(DB 13, None)" 103 "(DB 13, None)" 104 ?p2]
    h1 h2 c i
  have "fst (Simple_RetrieveDB ?p2 (DB 13, None) 103) = Returned (DB 12, None)"
    by blast
  with h1 h2 c i show ?thesis by blast
qed

section \<open>Release of a handle that is not in use\<close>

lemma release_returns:
  assumes "db \<noteq> Null"
    and "go_int (maxIdleConns p - 1) \<le> cur p
         \<or> (0 \<le> go_int (cur p + 1) \<and> go_int (cur p + 1) < int (length (releasedConnects p)))"
  shows "Simple_ReleaseDB p db =
           (if go_int (maxIdleConns p - 1) \<le> cur p
            then (Returned (), p\<lparr>usingConnects := (usingConnects p)(db := None)\<rparr>, [db])
            else (Returned (),
                  p\<lparr>cur := go_int (cur p + 1),
                    releasedConnects := (releasedConnects p)[nat (go_int (cur p + 1)) := db],
                    usingConnects := (usingConnects p)(db := None)\<rparr>,
                  []))"
proof -
  have cl: "DB_Close db = None"
    using assms(1) by (cases db) (simp_all add: DB_Close_def)
  show ?thesis
    using assms(2) by (auto simp: Simple_ReleaseDB_def Let_def cl)
qed

text \<open>
  The slot of a retained handle lies inside the slice in every pool reached from the fresh
  one while no cap beyond the ten slots is set, whatever handles are released.
\<close>

lemma slots_exec:
  assumes "slots_inv p" and "cap_within_slots a"
  shows "slots_inv (exec p a)"
proof (cases a)
  case (Acquire opened now)
  with assms(1) show ?thesis
    by (auto simp: slots_inv_def Simple_RetrieveDB_def Let_def go_int_id split: option.splits)
next
  case (Release db)
  show ?thesis
  proof (cases "go_int (maxIdleConns p - 1) \<le> cur p")
    case True
    with assms(1) Release show ?thesis
      by (cases db) (simp_all add: slots_inv_def Simple_ReleaseDB_def DB_Close_def)
  next
    case False
    have "go_int (maxIdleConns p - 1) \<le> maxIdleConns p - 1"
      using assms(1) by (intro go_int_le_self) (simp add: slots_inv_def)
    with False assms(1) have "- 1 \<le> cur p" "cur p \<le> 8"
      by (simp_all add: slots_inv_def)
    then have "go_int (cur p + 1) = cur p + 1" "0 \<le> cur p + 1" "cur p + 1 \<le> 9"
      by (simp_all add: go_int_id)
    with False assms(1) Release show ?thesis
      by (simp add: slots_inv_def Simple_ReleaseDB_def Let_def)
  qed
next
  case (SetMaxIdle n)
  with assms show ?thesis
    by (simp add: slots_inv_def Simple_SetMaxIdleConns_def)
qed

lemma slots_run:
  "slots_inv p \<Longrightarrow> list_all cap_within_slots ops \<Longrightarrow> slots_inv (run p ops)"
  unfolding run_def by (induction ops arbitrary: p) (simp_all add: slots_exec)

lemma slots_new: "slots_inv NewSimpleConnectPool"
  by (simp add: slots_inv_def NewSimpleConnectPool_def)

lemma slots_room:
  assumes "slots_inv p"
  shows "go_int (maxIdleConns p - 1) \<le> cur p
         \<or> (0 \<le> go_int (cur p + 1) \<and> go_int (cur p + 1) < int (length (releasedConnects p)))"
proof (cases "go_int (maxIdleConns p - 1) \<le> cur p")
  case True
  then show ?thesis by simp
next
  case False
  have "go_int (maxIdleConns p - 1) \<le> maxIdleConns p - 1"
    using assms by (intro go_int_le_self) (simp add: slots_inv_def)
  with False assms have "- 1 \<le> cur p" "cur p \<le> 8"
    by (simp_all add: slots_inv_def)
  then have "go_int (cur p + 1) = cur p + 1" "0 \<le> cur p + 1" "cur p + 1 \<le> 9"
    by (simp_all add: go_int_id)
  with assms show ?thesis by (simp add: slots_inv_def)
qed

lemma release_returns_within_slots:
  assumes "list_all cap_within_slots ops" and "db \<noteq> Null"
  shows "fst (Simple_ReleaseDB (run NewSimpleConnectPool ops) db) = Returned ()"
  using release_returns [OF assms(2) slots_room [OF slots_run [OF slots_new assms(1)]]]
  by (simp split: if_splits)

text \<open>
  C6. \<^verbatim>\<open>ReleaseDB\<close> of a non-nil handle that is not a key of the in-use mapping returns
  without a panic, leaves the mapping as it is, and closes the handle (idle stack at the
  cap) or retains it in the slot after the cursor, provided that this slot lies inside the
  slice.
\<close>

theorem release_untracked:
  assumes "db \<notin> dom (usingConnects p)" and "db \<noteq> Null"
    and "go_int (maxIdleConns p - 1) \<le> cur p
         \<or> (0 \<le> go_int (cur p + 1) \<and> go_int (cur p + 1) < int (length (releasedConnects p)))"
  shows "Simple_ReleaseDB p db =
           (if go_int (maxIdleConns p - 1) \<le> cur p then (Returned (), p, [db])
            else (Returned (),
                  p\<lparr>cur := go_int (cur p + 1),
                    releasedConnects := (releasedConnects p)[nat (go_int (cur p + 1)) := db]\<rparr>,
                  []))"
proof -
  have "(usingConnects p)(db := None) = usingConnects p"
    using assms(1) by (auto simp: fun_eq_iff)
  with release_returns [OF assms(2,3)] show ?thesis
    by simp
qed

theorem release_untracked_witness:
  "DB 11 \<notin> dom (usingConnects (run NewSimpleConnectPool [Acquire (DB 11, None) 101, Release (DB 11)]))
   \<and> DB 11 \<noteq> Null
   \<and> Simple_ReleaseDB (run NewSimpleConnectPool [Acquire (DB 11, None) 101, Release (DB 11)]) (DB 11)
      = (Returned (),
         (run NewSimpleConnectPool [Acquire (DB 11, None) 101, Release (DB 11)])
           \<lparr>cur := 1, releasedConnects := [DB 11, DB 11, Null, Null, Null, Null, Null, Null, Null, Null]\<rparr>,
         [])"
proof -
  let ?p = "run NewSimpleConnectPool [Acquire (DB 11, None) 101, Release (DB 11)]"
  have a: "DB 11 \<notin> dom (usingConnects ?p)" by (simp add: eval_pool)
  have b: "DB 11 \<noteq> Null" by simp
  have c: "go_int (maxIdleConns ?p - 1) \<le> cur ?p
         \<or> (0 \<le> go_int (cur ?p + 1) \<and> go_int (cur ?p + 1) < int (length (releasedConnects ?p)))"
    by (simp add: eval_pool)
  have f: "cur ?p = 0" "maxIdleConns ?p = 10"
    "releasedConnects ?p = [DB 11, Null, Null, Null, Null, Null, Null, Null, Null, Null]"
    by (simp_all add: eval_pool)
  show ?thesis
    using a b release_untracked [OF a b c] by (simp add: f go_int_id)
qed

theorem release_untracked_counterexample:
  "DB 11 \<notin> dom (usingConnects (run NewSimpleConnectPool
      [SetMaxIdle 11, Release (DB 11), Release (DB 11), Release (DB 11), Release (DB 11),
       Release (DB 11), Release (DB 11), Release (DB 11), Release (DB 11), Release (DB 11),
       Release (DB 11)]))
   \<and> fst (Simple_ReleaseDB (run NewSimpleConnectPool
      [SetMaxIdle 11, Release (DB 11), Release (DB 11), Release (DB 11), Release (DB 11),
       Release (DB 11), Release (DB 11), Release (DB 11), Release (DB 11), Release (DB 11),
       Release (DB 11)]) (DB 11)) = Panicked IndexOutOfRange"
  by (simp add: eval_pool)

section \<open>The idle stack stays within maxIdle\<close>

lemma cur_exec: "cur_inv p \<Longrightarrow> cur_inv (exec p a)"
proof (cases a)
  case (Acquire opened now)
  assume "cur_inv p"
  with Acquire show ?thesis
    by (auto simp: cur_inv_def Simple_RetrieveDB_def Let_def go_int_id split: option.splits)
next
  case (Release db)
  assume inv: "cur_inv p"
  show ?thesis
  proof (cases "go_int (maxIdleConns p - 1) \<le> cur p")
    case True
    with inv Release show ?thesis
      by (cases db) (simp_all add: cur_inv_def Simple_ReleaseDB_def DB_Close_def)
  next
    case False
    have lo: "- 1 \<le> cur p" using inv by (simp add: cur_inv_def)
    have hi: "cur p + 1 < 2 ^ 63"
      using False go_int_less [of "maxIdleConns p - 1"] by linarith
    have "go_int (cur p + 1) = cur p + 1"
      using lo hi by (intro go_int_id) simp_all
    with False lo hi Release show ?thesis
      by (simp add: cur_inv_def Simple_ReleaseDB_def Let_def)
  qed
next
  case (SetMaxIdle n)
  assume "cur_inv p"
  with SetMaxIdle show ?thesis
    by (simp add: cur_inv_def Simple_SetMaxIdleConns_def)
qed

lemma cur_run: "cur_inv p \<Longrightarrow> cur_inv (run p ops)"
  unfolding run_def by (induction ops arbitrary: p) (simp_all add: cur_exec)

lemma cur_new: "cur_inv NewSimpleConnectPool"
  by (simp add: cur_inv_def NewSimpleConnectPool_def)

lemma cap_retrieve:
  assumes "cap_inv p"
  shows "cap_inv (snd (Simple_RetrieveDB p opened now))"
proof -
  have "cur_inv (exec p (Acquire opened now))"
    using assms by (intro cur_exec) (simp add: cap_inv_def)
  moreover have "idle_count (snd (Simple_RetrieveDB p opened now))
                 \<le> maxIdleConns (snd (Simple_RetrieveDB p opened now))"
    using assms
    by (auto simp: cap_inv_def cur_inv_def idle_count_def Simple_RetrieveDB_def Let_def
        go_int_id split: option.splits)
  ultimately show ?thesis by (simp add: cap_inv_def)
qed

lemma cap_release:
  assumes "cap_inv p"
  shows "cap_inv (fst (snd (Simple_ReleaseDB p db)))"
proof -
  have c: "cur_inv (exec p (Release db))"
    using assms by (intro cur_exec) (simp add: cap_inv_def)
  have "idle_count (fst (snd (Simple_ReleaseDB p db)))
        \<le> maxIdleConns (fst (snd (Simple_ReleaseDB p db)))"
  proof (cases "go_int (maxIdleConns p - 1) \<le> cur p")
    case True
    with assms show ?thesis
      by (cases db) (simp_all add: Simple_ReleaseDB_def DB_Close_def cap_inv_def idle_count_def)
  next
    case False
    have lo: "- 1 \<le> cur p" and m: "0 \<le> maxIdleConns p"
      using assms by (simp_all add: cap_inv_def cur_inv_def idle_count_def)
    have "go_int (maxIdleConns p - 1) \<le> maxIdleConns p - 1"
      using m by (intro go_int_le_self) simp
    with False have below: "cur p + 2 \<le> maxIdleConns p" by simp
    have hi: "cur p + 1 < 2 ^ 63"
      using False go_int_less [of "maxIdleConns p - 1"] by linarith
    have "go_int (cur p + 1) = cur p + 1"
      using lo hi by (intro go_int_id) simp_all
    with False below show ?thesis
      by (simp add: Simple_ReleaseDB_def Let_def idle_count_def)
  qed
  with c show ?thesis by (simp add: cap_inv_def)
qed

lemma cap_run: "cap_inv p \<Longrightarrow> cap_respected p ops \<Longrightarrow> cap_inv (run p ops)"
proof (induction ops arbitrary: p)
  case Nil
  then show ?case by (simp add: run_def)
next
  case (Cons a ops)
  have "cap_inv (exec p a) \<and> cap_respected (exec p a) ops"
  proof (cases a)
    case (Acquire opened now)
    with Cons.prems show ?thesis by (simp add: cap_retrieve)
  next
    case (Release db)
    with Cons.prems show ?thesis by (simp add: cap_release)
  next
    case (SetMaxIdle n)
    with Cons.prems show ?thesis
      by (simp add: cap_inv_def cur_inv_def idle_count_def Simple_SetMaxIdleConns_def)
  qed
  then have "cap_inv (run (exec p a) ops)" by (intro Cons.IH) simp_all
  then show ?case by (simp add: run_def)
qed

lemma cap_new: "cap_inv NewSimpleConnectPool"
  by (simp add: cap_inv_def cur_inv_def idle_count_def NewSimpleConnectPool_def)

lemma release_at_cap:
  assumes "cur_inv p" and "idle_count p = maxIdleConns p" and "db \<noteq> Null"
  shows "Simple_ReleaseDB p db
         = (Returned (), p\<lparr>usingConnects := (usingConnects p)(db := None)\<rparr>, [db])"
proof -
  have "maxIdleConns p - 1 = cur p" using assms(2) by (simp add: idle_count_def)
  moreover have "go_int (cur p) = cur p"
    using assms(1) by (intro go_int_id) (simp_all add: cur_inv_def)
  ultimately show ?thesis
    using assms(3) by (cases db) (simp_all add: Simple_ReleaseDB_def DB_Close_def)
qed

text \<open>
  C2. After any sequence of Acquire, Release and SetMaxIdle calls on the freshly
  constructed pool in which no SetMaxIdle sets the cap below the number of handles idle at
  that moment, the number of idle handles is at most maxIdle. After any sequence of such
  calls, a Release of a handle when the idle stack holds maxIdle entries closes the handle,
  retains nothing, and leaves the idle count equal to maxIdle.
\<close>

theorem idle_bound:
  assumes "p = run NewSimpleConnectPool ops"
  shows "(cap_respected NewSimpleConnectPool ops \<longrightarrow>
            idle_count p \<le> Simple_MaxIdleConns p
            \<and> int (length (idle_handles p)) \<le> Simple_MaxIdleConns p)
         \<and> (idle_count p = Simple_MaxIdleConns p \<and> db \<noteq> Null \<longrightarrow>
              Simple_ReleaseDB p db
                = (Returned (), p\<lparr>usingConnects := (usingConnects p)(db := None)\<rparr>, [db])
              \<and> idle_handles (fst (snd (Simple_ReleaseDB p db))) = idle_handles p
              \<and> idle_count (fst (snd (Simple_ReleaseDB p db)))
                  = Simple_MaxIdleConns (fst (snd (Simple_ReleaseDB p db))))"
proof (intro conjI impI)
  assume "cap_respected NewSimpleConnectPool ops"
  with cap_new have inv: "cap_inv p"
    unfolding assms by (rule cap_run)
  then show bound: "idle_count p \<le> Simple_MaxIdleConns p"
    by (simp add: cap_inv_def Simple_MaxIdleConns_def)
  have "int (length (idle_handles p)) \<le> idle_count p"
    using inv by (auto simp: idle_handles_def idle_count_def cap_inv_def cur_inv_def min_def)
  with bound show "int (length (idle_handles p)) \<le> Simple_MaxIdleConns p"
    by simp
next
  assume at_cap: "idle_count p = Simple_MaxIdleConns p \<and> db \<noteq> Null"
  have "cur_inv p"
    unfolding assms using cur_new by (rule cur_run)
  with at_cap have r: "Simple_ReleaseDB p db
      = (Returned (), p\<lparr>usingConnects := (usingConnects p)(db := None)\<rparr>, [db])"
    by (intro release_at_cap) (simp_all add: Simple_MaxIdleConns_def)
  then show "Simple_ReleaseDB p db
      = (Returned (), p\<lparr>usingConnects := (usingConnects p)(db := None)\<rparr>, [db])" .
  show "idle_handles (fst (snd (Simple_ReleaseDB p db))) = idle_handles p"
    by (simp add: r idle_handles_def)
  show "idle_count (fst (snd (Simple_ReleaseDB p db)))
        = Simple_MaxIdleConns (fst (snd (Simple_ReleaseDB p db)))"
    using at_cap by (simp add: r idle_count_def Simple_MaxIdleConns_def)
qed

theorem idle_bound_witness:
  "cap_respected NewSimpleConnectPool
     [SetMaxIdle 2, Acquire (DB 11, None) 101, Acquire (DB 12, None) 102,
      Acquire (DB 13, None) 103, Release (DB 11), Release (DB 12)]
   \<and> idle_count (run NewSimpleConnectPool
     [SetMaxIdle 2, Acquire (DB 11, None) 101, Acquire (DB 12, None) 102,
      Acquire (DB 13, None) 103, Release (DB 11), Release (DB 12)]) = 2
   \<and> Simple_MaxIdleConns (run NewSimpleConnectPool
     [SetMaxIdle 2, Acquire (DB 11, None) 101, Acquire (DB 12, None) 102,
      Acquire (DB 13, None) 103, Release (DB 11), Release (DB 12)]) = 2
   \<and> DB 13 \<noteq> Null
   \<and> snd (snd (Simple_ReleaseDB (run NewSimpleConnectPool
     [SetMaxIdle 2, Acquire (DB 11, None) 101, Acquire (DB 12, None) 102,
      Acquire (DB 13, None) 103, Release (DB 11), Release (DB 12)]) (DB 13))) = [DB 13]
   \<and> idle_handles (fst (snd (Simple_ReleaseDB (run NewSimpleConnectPool
     [SetMaxIdle 2, Acquire (DB 11, None) 101, Acquire (DB 12, None) 102,
      Acquire (DB 13, None) 103, Release (DB 11), Release (DB 12)]) (DB 13))))
     = idle_handles (run NewSimpleConnectPool
     [SetMaxIdle 2, Acquire (DB 11, None) 101, Acquire (DB 12, None) 102,
      Acquire (DB 13, None) 103, Release (DB 11), Release (DB 12)])"
proof -
  let ?ops = "[SetMaxIdle 2, Acquire (DB 11, None) 101, Acquire (DB 12, None) 102,
      Acquire (DB 13, None) 103, Release (DB 11), Release (DB 12)]"
  let ?p = "run NewSimpleConnectPool ?ops"
  have h: "cap_respected NewSimpleConnectPool
     [SetMaxIdle 2, Acquire (DB 11, None) 101, Acquire (DB 12, None) 102,
      Acquire (DB 13, None) 103, Release (DB 11), Release (DB 12)]"
    by (simp add: eval_pool)
  have c: "idle_count ?p = 2" "Simple_MaxIdleConns ?p = 2"
    by (simp_all add: eval_pool)
  have n: "DB 13 \<noteq> Null" by simp
  have pre: "idle_count ?p = Simple_MaxIdleConns ?p \<and> DB 13 \<noteq> Null"
    using c by simp
  from idle_bound [OF refl, of ?ops "DB 13"] h pre
  have r: "Simple_ReleaseDB ?p (DB 13)
             = (Returned (), ?p\<lparr>usingConnects := (usingConnects ?p)(DB 13 := None)\<rparr>, [DB 13])"
    and i: "idle_handles (fst (snd (Simple_ReleaseDB ?p (DB 13)))) = idle_handles ?p"
    by blast+
  have "snd (snd (Simple_ReleaseDB ?p (DB 13))) = [DB 13]"
    unfolding r by simp
  with h c n i show ?thesis by blast
qed

theorem idle_bound_counterexample:
  "\<not> idle_count (run NewSimpleConnectPool [Acquire (DB 11, None) 101, Release (DB 11), SetMaxIdle 0])
      \<le> Simple_MaxIdleConns
          (run NewSimpleConnectPool [Acquire (DB 11, None) 101, Release (DB 11), SetMaxIdle 0])"
  by (simp add: eval_pool)

end
